theory Spec2Isabelle
  imports Main "HOL-Library.Sublist"
begin

section \<open>Regular expressions of the extractor\<close>

text \<open>
  \<open>searchFile\<close> compiles two patterns with Go's \<open>regexp\<close> package:
  \<^verbatim>\<open>^\s*source\s*=\s*".+examples.+"$\<close> for the line test and \<^verbatim>\<open>"(.*?)"\<close> for the quoted
  tokens. Both are sequences of single-character classes, each taken once or under a
  quantifier, so a pattern is a list of atoms. Characters are bytes: every literal of the
  two patterns is ASCII, and \<open>.\<close> takes any rune (an invalid byte counts as one), so a
  non-empty run of runes is a non-empty run of bytes.
\<close>

datatype cls = Lit char | Space | Dot

fun accepts :: "cls \<Rightarrow> char \<Rightarrow> bool" where
  "accepts (Lit c) x = (x = c)"
| "accepts Space x =
     (x = CHR 0x09 \<or> x = CHR 0x0A \<or> x = CHR 0x0C \<or> x = CHR 0x0D \<or> x = CHR '' '')"
| "accepts Dot x = (x \<noteq> CHR 0x0A)"

datatype atom = One cls | Star cls | Plus cls | Lazy cls

text \<open>
  All ways to cut a run of accepted characters off the front of the input, shortest run
  first: the order in which a lazy quantifier tries them.
\<close>

fun spans :: "cls \<Rightarrow> string \<Rightarrow> (string \<times> string) list" where
  "spans c [] = [([], [])]"
| "spans c (x # xs) =
     ([], x # xs) # (if accepts c x then map (\<lambda>(p, r). (x # p, r)) (spans c xs) else [])"

text \<open>
  The cuts an atom allows, in the order of preference of Go's leftmost-first matching:
  a greedy quantifier prefers the longest run, a lazy one the shortest.
\<close>

fun candidates :: "atom \<Rightarrow> string \<Rightarrow> (string \<times> string) list" where
  "candidates (One c) [] = []"
| "candidates (One c) (x # xs) = (if accepts c x then [([x], xs)] else [])"
| "candidates (Star c) s = rev (spans c s)"
| "candidates (Plus c) s = rev (tl (spans c s))"
| "candidates (Lazy c) s = spans c s"

fun first_match :: "('a \<Rightarrow> 'b option) \<Rightarrow> 'a list \<Rightarrow> 'b option" where
  "first_match f [] = None"
| "first_match f (x # xs) = (case f x of Some y \<Rightarrow> Some y | None \<Rightarrow> first_match f xs)"

text \<open>
  A match of the pattern at the start of the input: the text each atom took and the input
  left over. With \<open>to_end\<close> the pattern ends in \<open>$\<close> and the whole input must be used.
\<close>

primrec rx_match :: "atom list \<Rightarrow> bool \<Rightarrow> string \<Rightarrow> (string list \<times> string) option" where
  "rx_match [] to_end s = (if to_end \<and> s \<noteq> [] then None else Some ([], s))"
| "rx_match (a # r) to_end s =
     first_match
       (\<lambda>(p, rest). map_option (\<lambda>(gs, out). (p # gs, out)) (rx_match r to_end rest))
       (candidates a s)"

text \<open>The leftmost match of an unanchored pattern: the first start position that matches.\<close>

fun rx_search :: "atom list \<Rightarrow> string \<Rightarrow> (string list \<times> string) option" where
  "rx_search rx [] = rx_match rx False []"
| "rx_search rx (x # xs) =
     (case rx_match rx False (x # xs) of
        Some m \<Rightarrow> Some m
      | None \<Rightarrow> rx_search rx xs)"

text \<open>
  \<open>FindAllStringSubmatch(line, -1)\<close>: the successive non-overlapping leftmost matches.
  A match of the token pattern holds at least its two quote characters; Go's rule for an
  empty match (step one rune, drop an empty match next to the previous one) is never
  reached by it, and the function stops there.
\<close>

function find_all :: "atom list \<Rightarrow> string \<Rightarrow> string list list" where
  "find_all rx s =
     (case rx_search rx s of
        None \<Rightarrow> []
      | Some (gs, rest) \<Rightarrow>
          if length rest < length s then gs # find_all rx rest else [gs])"
  by pat_completeness auto
termination
  by (relation "measure (\<lambda>(rx, s). length s)") auto

definition lits :: "string \<Rightarrow> atom list" where
  "lits w = map (\<lambda>c. One (Lit c)) w"

text \<open>\<^verbatim>\<open>^\s*source\s*=\s*".+examples.+"$\<close>\<close>

definition line_rx :: "atom list" where
  "line_rx =
     [Star Space] @ lits ''source'' @ [Star Space, One (Lit CHR ''=''), Star Space,
      One (Lit CHR 0x22), Plus Dot] @ lits ''examples'' @ [Plus Dot, One (Lit CHR 0x22)]"

text \<open>\<^verbatim>\<open>"(.*?)"\<close>: the parenthesised group is the second atom.\<close>

definition quote_rx :: "atom list" where
  "quote_rx = [One (Lit CHR 0x22), Lazy Dot, One (Lit CHR 0x22)]"

definition MatchString :: "atom list \<Rightarrow> string \<Rightarrow> bool" where
  "MatchString rx s = (rx_match rx True s \<noteq> None)"


section \<open>Standard-library functions the operation calls\<close>

text \<open>
  \<open>filepath.Base\<close> on a Unix path: the empty path gives \<open>.\<close>; trailing slashes are
  stripped, then everything up to the last slash; a path of slashes only gives \<open>/\<close>.
\<close>

definition strip_trailing :: "string \<Rightarrow> string" where
  "strip_trailing p = rev (dropWhile (\<lambda>c. c = CHR ''/'') (rev p))"

definition last_element :: "string \<Rightarrow> string" where
  "last_element p = rev (takeWhile (\<lambda>c. c \<noteq> CHR ''/'') (rev p))"

definition filepath_Base :: "string \<Rightarrow> string" where
  "filepath_Base p =
     (if p = [] then ''.''
      else (let q = last_element (strip_trailing p) in if q = [] then ''/'' else q))"

text \<open>The pieces of a path between its slashes.\<close>

fun split_acc :: "string \<Rightarrow> string \<Rightarrow> string list" where
  "split_acc cur [] = [rev cur]"
| "split_acc cur (x # xs) =
     (if x = CHR ''/'' then rev cur # split_acc [] xs else split_acc (x # cur) xs)"

definition path_elements :: "string \<Rightarrow> string list" where
  "path_elements p = split_acc [] p"

fun join_slash :: "string list \<Rightarrow> string" where
  "join_slash [] = []"
| "join_slash [x] = x"
| "join_slash (x # y # ys) = x @ ''/'' @ join_slash (y # ys)"

text \<open>
  \<open>filepath.Clean\<close> on a Unix path, element by element: empty elements and \<open>.\<close> are
  dropped, \<open>..\<close> removes the element before it, is dropped at the root and is kept at
  the front of a relative path.
\<close>

definition clean_step :: "bool \<Rightarrow> string list \<Rightarrow> string \<Rightarrow> string list" where
  "clean_step rooted out e =
     (if e = [] \<or> e = ''.'' then out
      else if e = ''..'' then
        (if out \<noteq> [] \<and> last out \<noteq> ''..'' then butlast out
         else if rooted then out
         else out @ [''..''])
      else out @ [e])"

definition filepath_Clean :: "string \<Rightarrow> string" where
  "filepath_Clean p =
     (if p = [] then ''.''
      else (let rooted = (hd p = CHR ''/'');
                body = join_slash (foldl (clean_step rooted) [] (path_elements p))
            in if rooted then CHR ''/'' # body
               else if body = [] then ''.''
               else body))"

text \<open>\<open>filepath.Join(dir, name)\<close>: leading empty elements are skipped, the rest is cleaned.\<close>

definition filepath_Join :: "string \<Rightarrow> string \<Rightarrow> string" where
  "filepath_Join dir nm =
     (if dir \<noteq> [] then filepath_Clean (dir @ ''/'' @ nm)
      else if nm \<noteq> [] then filepath_Clean nm
      else [])"

fun strings_Contains :: "string \<Rightarrow> string \<Rightarrow> bool" where
  "strings_Contains [] substr = (substr = [])"
| "strings_Contains (c # s) substr = (prefix substr (c # s) \<or> strings_Contains s substr)"

primrec slices_Contains :: "string list \<Rightarrow> string \<Rightarrow> bool" where
  "slices_Contains [] v = False"
| "slices_Contains (x # xs) v = (x = v \<or> slices_Contains xs v)"

section \<open>The filesystem and the log\<close>

text \<open>
  What the operation can observe and change. \<open>os.ReadDir\<close> gives the entries of a
  directory or an error (\<open>None\<close>); \<open>os.Open\<close> gives a file or an error (\<open>None\<close>). An open
  file is what \<open>bufio.Scanner\<close> makes of it: the lines \<open>Scan\<close> delivers before it returns
  false, and whether \<open>Err\<close> is then non-nil (a read error, or a line longer than the
  scanner's buffer). \<open>tflog.Info\<close> appends to the log.
\<close>

record dirent =
  de_name :: string
  de_is_dir :: bool

record scanned =
  sc_lines :: "string list"
  sc_err :: bool

record world =
  fs_dirs :: "string \<Rightarrow> dirent list option"
  fs_files :: "string \<Rightarrow> scanned option"
  tf_log :: "string list"

datatype error =
  DirectoryReadError string
| FileOpenError string
| FileScanError string

definition tflog_Info :: "string \<Rightarrow> world \<Rightarrow> world" where
  "tflog_Info msg w = w\<lparr>tf_log := tf_log w @ [msg]\<rparr>"

section \<open>searchFile\<close>

text \<open>The loop over the matches of one line; \<open>m ! 1\<close> is the submatch of the group.\<close>

fun emit_loop :: "string list list \<Rightarrow> string list \<Rightarrow> world \<Rightarrow> string list \<times> world" where
  "emit_loop [] result w = (result, w)"
| "emit_loop (m # ms) result w =
     (let strippedText = filepath_Base (m ! 1)
      in emit_loop ms (result @ [strippedText]) (tflog_Info strippedText w))"

text \<open>The body of the scanning loop, for one line.\<close>

definition scan_line :: "string \<Rightarrow> string list \<Rightarrow> world \<Rightarrow> string list \<times> world" where
  "scan_line line result w =
     (if MatchString line_rx line then emit_loop (find_all quote_rx line) result w
      else (result, w))"

text \<open>\<open>for scanner.Scan()\<close>: over the lines the scanner delivers.\<close>

fun scan_loop :: "string list \<Rightarrow> string list \<Rightarrow> world \<Rightarrow> string list \<times> world" where
  "scan_loop [] result w = (result, w)"
| "scan_loop (line # rest) result w =
     (case scan_line line result w of (result', w') \<Rightarrow> scan_loop rest result' w')"

text \<open>
  A failed \<open>os.Open\<close> panics. After the loop the result is returned; \<open>scanner.Err()\<close> is
  not consulted, so \<open>sc_err\<close> is not read. The parameters \<open>pattern\<close> and
  \<open>examplesDirectory\<close> are unused, as in the source.
\<close>

definition searchFile ::
  "string \<Rightarrow> string \<Rightarrow> string \<Rightarrow> world \<Rightarrow> (error + string list) \<times> world" where
  "searchFile file pattern examplesDirectory w =
     (case fs_files w file of
        None \<Rightarrow> (Inl (FileOpenError file), w)
      | Some f \<Rightarrow>
          (case scan_loop (sc_lines f) [] w of (result, w') \<Rightarrow> (Inr result, w')))"

section \<open>findMissingTests\<close>

fun examples_loop :: "dirent list \<Rightarrow> string list \<Rightarrow> string list" where
  "examples_loop [] examples = examples"
| "examples_loop (file # files) examples =
     examples_loop files (if de_is_dir file then examples @ [de_name file] else examples)"

fun tests_loop ::
  "dirent list \<Rightarrow> string \<Rightarrow> string \<Rightarrow> string \<Rightarrow> string \<Rightarrow> string list \<Rightarrow> world
     \<Rightarrow> (error + string list) \<times> world" where
  "tests_loop [] testsDirectory filter_str sourceFilter examplesDirectory tests w = (Inr tests, w)"
| "tests_loop (file # files) testsDirectory filter_str sourceFilter examplesDirectory tests w =
     (if \<not> de_is_dir file \<and> strings_Contains (de_name file) filter_str then
        (let filepath = filepath_Join testsDirectory (de_name file);
             w1 = tflog_Info filepath w
         in case searchFile filepath sourceFilter examplesDirectory w1 of
              (Inl e, w2) \<Rightarrow> (Inl e, w2)
            | (Inr found, w2) \<Rightarrow>
                tests_loop files testsDirectory filter_str sourceFilter examplesDirectory
                  (tests @ found) w2)
      else tests_loop files testsDirectory filter_str sourceFilter examplesDirectory tests w)"

fun missing_loop :: "string list \<Rightarrow> string list \<Rightarrow> string list \<Rightarrow> string list" where
  "missing_loop [] tests missing = missing"
| "missing_loop (e # es) tests missing =
     missing_loop es tests (if \<not> slices_Contains tests e then missing @ [e] else missing)"

text \<open>
  Each \<open>panic(err)\<close> is an error value: \<open>DirectoryReadError\<close> for a failed \<open>os.ReadDir\<close>,
  \<open>FileOpenError\<close> for a failed \<open>os.Open\<close>. The world is returned with the result.
\<close>

definition findMissingTests ::
  "string \<Rightarrow> string \<Rightarrow> string \<Rightarrow> world \<Rightarrow> (error + string list) \<times> world" where
  "findMissingTests examplesDirectory testsDirectory filter_str w =
     (let sourceFilter = ''source = \"./examples'' in
      case fs_dirs w examplesDirectory of
        None \<Rightarrow> (Inl (DirectoryReadError examplesDirectory), w)
      | Some files \<Rightarrow>
          (let examples = examples_loop files [] in
           case fs_dirs w testsDirectory of
             None \<Rightarrow> (Inl (DirectoryReadError testsDirectory), w)
           | Some testFiles \<Rightarrow>
               (let w1 = tflog_Info (''Source Filter: '' @ [CHR 0x27] @ sourceFilter @ [CHR 0x27]) w
                in case tests_loop testFiles testsDirectory filter_str sourceFilter
                          examplesDirectory [] w1 of
                     (Inl e, w2) \<Rightarrow> (Inl e, w2)
                   | (Inr tests, w2) \<Rightarrow> (Inr (missing_loop examples tests []), w2))))"

section \<open>Notions of the specification\<close>

text \<open>The strings an atom and a pattern denote.\<close>

fun atom_lang :: "atom \<Rightarrow> string \<Rightarrow> bool" where
  "atom_lang (One c) p = (\<exists>x. p = [x] \<and> accepts c x)"
| "atom_lang (Star c) p = list_all (accepts c) p"
| "atom_lang (Plus c) p = (p \<noteq> [] \<and> list_all (accepts c) p)"
| "atom_lang (Lazy c) p = list_all (accepts c) p"

fun rx_lang :: "atom list \<Rightarrow> string \<Rightarrow> bool" where
  "rx_lang [] s = (s = [])"
| "rx_lang (a # r) s = (\<exists>p q. s = p @ q \<and> atom_lang a p \<and> rx_lang r q)"

text \<open>Whitespace, and a run of characters without a newline.\<close>

definition blank :: "string \<Rightarrow> bool" where
  "blank ws = list_all (accepts Space) ws"

definition one_line :: "string \<Rightarrow> bool" where
  "one_line s = (CHR 0x0A \<notin> set s)"

text \<open>
  The line pattern in the words of the specification: optional whitespace, \<open>source\<close>,
  optional whitespace, \<open>=\<close>, optional whitespace, and a double-quoted string whose
  contents include \<open>examples\<close> anywhere, with nothing else on the line.
\<close>

definition spec_source_line :: "string \<Rightarrow> bool" where
  "spec_source_line l =
     (\<exists>w1 w2 w3 c.
        l = w1 @ ''source'' @ w2 @ ''='' @ w3 @ [CHR 0x22] @ c @ [CHR 0x22] \<and>
        blank w1 \<and> blank w2 \<and> blank w3 \<and> sublist ''examples'' c)"

text \<open>
  The line pattern of the code: between the first quote and the quote that ends the line
  stand at least one character, \<open>examples\<close>, and at least one more character.
\<close>

definition source_line :: "string \<Rightarrow> bool" where
  "source_line l =
     (\<exists>w1 w2 w3 a b.
        l = w1 @ ''source'' @ w2 @ ''='' @ w3 @ [CHR 0x22] @ a @ ''examples'' @ b @ [CHR 0x22] \<and>
        blank w1 \<and> blank w2 \<and> blank w3 \<and>
        a \<noteq> [] \<and> b \<noteq> [] \<and> one_line a \<and> one_line b)"

text \<open>
  The double-quoted substrings of a line, pairing the quote characters from the left; a
  quote that is never closed opens no token.
\<close>

fun quoted :: "string option \<Rightarrow> string \<Rightarrow> string list" where
  "quoted st [] = []"
| "quoted None (c # cs) =
     (if c = CHR 0x22 then quoted (Some []) cs else quoted None cs)"
| "quoted (Some acc) (c # cs) =
     (if c = CHR 0x22 then rev acc # quoted None cs else quoted (Some (c # acc)) cs)"

definition quoted_tokens :: "string \<Rightarrow> string list" where
  "quoted_tokens l = quoted None l"

text \<open>The last of the pieces of a string between its slashes.\<close>

definition last_component :: "string \<Rightarrow> string" where
  "last_component t = last (path_elements t)"

text \<open>The references one line, a list of lines and the file at a path contribute.\<close>

definition line_refs :: "string \<Rightarrow> string list" where
  "line_refs l =
     (if MatchString line_rx l then map (\<lambda>m. filepath_Base (m ! 1)) (find_all quote_rx l)
      else [])"

definition refs_of :: "string list \<Rightarrow> string list" where
  "refs_of ls = concat (map line_refs ls)"

definition file_refs :: "world \<Rightarrow> string \<Rightarrow> string list" where
  "file_refs w p = (case fs_files w p of None \<Rightarrow> [] | Some f \<Rightarrow> refs_of (sc_lines f))"

text \<open>The Enumerator's output: the names of the subdirectories, in listing order.\<close>

definition enumerated :: "dirent list \<Rightarrow> string list" where
  "enumerated entries = map de_name (filter de_is_dir entries)"

text \<open>
  The Selector's output: the paths of the entries that are not directories and whose name
  has the filter as a contiguous substring, in listing order.
\<close>

definition selected_files :: "string \<Rightarrow> string \<Rightarrow> dirent list \<Rightarrow> string list" where
  "selected_files testsDirectory filter_str entries =
     map (\<lambda>d. filepath_Join testsDirectory (de_name d))
       (filter (\<lambda>d. \<not> de_is_dir d \<and> sublist filter_str (de_name d)) entries)"

text \<open>The first log line of a run.\<close>

definition banner :: string where
  "banner = ''Source Filter: '' @ [CHR 0x27] @ ''source = \"./examples'' @ [CHR 0x27]"

text \<open>Worlds for concrete runs: directories and files by path, an empty log.\<close>

definition subdir :: "string \<Rightarrow> dirent" where
  "subdir nm = \<lparr>de_name = nm, de_is_dir = True\<rparr>"

definition plain_file :: "string \<Rightarrow> dirent" where
  "plain_file nm = \<lparr>de_name = nm, de_is_dir = False\<rparr>"

definition mk_world :: "(string \<times> dirent list) list \<Rightarrow> (string \<times> scanned) list \<Rightarrow> world" where
  "mk_world ds fs = \<lparr>fs_dirs = map_of ds, fs_files = map_of fs, tf_log = []\<rparr>"

text \<open>
  The fixture of the end-to-end test: examples \<open>advanced\<close> and \<open>basic\<close>, and one test file
  that references \<open>basic\<close>.
\<close>

definition fixture_world :: world where
  "fixture_world =
     mk_world
       [(''examples'', [subdir ''advanced'', subdir ''basic'']),
        (''tests'', [plain_file ''basic_test.cfg''])]
       [(''tests/basic_test.cfg'',
         \<lparr>sc_lines = [''  source = \"./examples/basic\"''], sc_err = False\<rparr>)]"

text \<open>
  The same with a second file \<open>notes.txt\<close> that references \<open>advanced\<close>, and a directory
  whose name ends in \<open>_test.cfg\<close>.
\<close>

definition notes_world :: world where
  "notes_world =
     mk_world
       [(''examples'', [subdir ''advanced'', subdir ''basic'']),
        (''tests'',
         [plain_file ''basic_test.cfg'', subdir ''more_test.cfg'', plain_file ''notes.txt''])]
       [(''tests/basic_test.cfg'',
         \<lparr>sc_lines = [''  source = \"./examples/basic\"''], sc_err = False\<rparr>),
        (''tests/notes.txt'',
         \<lparr>sc_lines = [''source = \"./examples/advanced\"''], sc_err = False\<rparr>)]"

text \<open>
  A test file of three lines, \<^verbatim>\<open>source = "./examples/a"\<close>, a line the scanner cannot
  deliver (longer than its buffer, or cut by a read error) and
  \<^verbatim>\<open>source = "./examples/b"\<close>: the scanner delivers the first line and stops with an
  error.
\<close>

definition broken_scan_world :: world where
  "broken_scan_world =
     mk_world
       [(''examples'', [subdir ''a'', subdir ''b'']),
        (''tests'', [plain_file ''main_test.tf''])]
       [(''tests/main_test.tf'',
         \<lparr>sc_lines = [''source = \"./examples/a\"''], sc_err = True\<rparr>)]"

section \<open>The matcher finds exactly the strings a pattern denotes\<close>

lemma set_spans: "set (spans c s) = {(p, r). s = p @ r \<and> list_all (accepts c) p}"
  by (induction s) (auto simp: Cons_eq_append_conv image_iff)

lemma set_tl_spans:
  "set (tl (spans c s)) = {(p, r). s = p @ r \<and> p \<noteq> [] \<and> list_all (accepts c) p}"
  by (cases s) (auto simp: set_spans Cons_eq_append_conv image_iff)

lemma first_match_None: "first_match f xs = None \<longleftrightarrow> (\<forall>x\<in>set xs. f x = None)"
  by (induction xs) (auto split: option.splits)

lemma first_match_found: "first_match f xs \<noteq> None \<longleftrightarrow> (\<exists>x\<in>set xs. f x \<noteq> None)"
  by (simp add: first_match_None)

lemma candidates_set: "(p, r) \<in> set (candidates a s) \<longleftrightarrow> s = p @ r \<and> atom_lang a p"
proof (cases a)
  case (One c)
  then show ?thesis by (cases s) auto
qed (auto simp: set_spans set_tl_spans)

lemma rx_match_iff:
  "rx_match rx e s \<noteq> None \<longleftrightarrow> (\<exists>p r. s = p @ r \<and> rx_lang rx p \<and> (e \<longrightarrow> r = []))"
proof (induction rx arbitrary: s)
  case Nil
  then show ?case by auto
next
  case (Cons a rx)
  have "rx_match (a # rx) e s \<noteq> None \<longleftrightarrow>
        (\<exists>p r. (p, r) \<in> set (candidates a s) \<and> rx_match rx e r \<noteq> None)"
  proof -
    have "rx_match (a # rx) e s \<noteq> None \<longleftrightarrow>
          (\<exists>x\<in>set (candidates a s). rx_match rx e (snd x) \<noteq> None)"
      by (simp only: rx_match.simps first_match_found split_beta map_option_is_None)
    then show ?thesis by force
  qed
  also have "\<dots> \<longleftrightarrow> (\<exists>p r. s = p @ r \<and> atom_lang a p \<and>
        (\<exists>p' r'. r = p' @ r' \<and> rx_lang rx p' \<and> (e \<longrightarrow> r' = [])))"
    by (simp only: candidates_set Cons.IH conj_assoc)
  also have "\<dots> \<longleftrightarrow> (\<exists>p r. s = p @ r \<and> rx_lang (a # rx) p \<and> (e \<longrightarrow> r = []))"
    by (simp only: rx_lang.simps) (metis append.assoc)
  finally show ?case .
qed

lemma MatchString_lang: "MatchString rx s \<longleftrightarrow> rx_lang rx s"
  unfolding MatchString_def by (simp only: rx_match_iff) simp

section \<open>The line pattern\<close>

lemma rx_lang_append:
  "rx_lang (xs @ ys) s \<longleftrightarrow> (\<exists>p q. s = p @ q \<and> rx_lang xs p \<and> rx_lang ys q)"
proof (induction xs arbitrary: s)
  case Nil
  then show ?case by simp
next
  case (Cons a xs)
  show ?case
    by (simp only: append_Cons rx_lang.simps Cons.IH) (metis append.assoc)
qed

lemma rx_lang_lits: "rx_lang (lits w) s \<longleftrightarrow> s = w"
  by (induction w arbitrary: s) (auto simp: lits_def)

lemma rx_lang_lits_then:
  "rx_lang (lits w @ r) s \<longleftrightarrow> (\<exists>q. s = w @ q \<and> rx_lang r q)"
  by (auto simp: rx_lang_append rx_lang_lits)

lemma rx_lang_lit_then:
  "rx_lang (One (Lit c) # r) s \<longleftrightarrow> (\<exists>q. s = c # q \<and> rx_lang r q)"
  by auto

lemma rx_lang_star_then:
  "rx_lang (Star Space # r) s \<longleftrightarrow> (\<exists>p q. s = p @ q \<and> blank p \<and> rx_lang r q)"
  by (simp add: blank_def)

lemma list_all_Dot: "list_all (accepts Dot) p \<longleftrightarrow> one_line p"
  by (auto simp: one_line_def list_all_iff)

lemma rx_lang_plus_then:
  "rx_lang (Plus Dot # r) s \<longleftrightarrow> (\<exists>p q. s = p @ q \<and> p \<noteq> [] \<and> one_line p \<and> rx_lang r q)"
  by (simp add: list_all_Dot)

lemma star_thenI: "blank p \<Longrightarrow> rx_lang r q \<Longrightarrow> rx_lang (Star Space # r) (p @ q)"
  by (auto simp: blank_def)

lemma lit_thenI: "rx_lang r q \<Longrightarrow> rx_lang (One (Lit c) # r) (c # q)"
  by auto

lemma plus_thenI:
  "p \<noteq> [] \<Longrightarrow> one_line p \<Longrightarrow> rx_lang r q \<Longrightarrow> rx_lang (Plus Dot # r) (p @ q)"
  by (auto simp: list_all_Dot)

lemma line_rx_lang: "rx_lang line_rx l \<longleftrightarrow> source_line l"
proof
  assume "rx_lang line_rx l"
  then show "source_line l"
    unfolding line_rx_def source_line_def
    apply (simp only: append_Cons append_Nil rx_lang_lits_then rx_lang_lit_then
        rx_lang_star_then rx_lang_plus_then rx_lang.simps(1))
    apply (elim exE conjE)
    apply hypsubst
    apply (intro exI conjI)
           apply (rule refl)
          apply assumption+
    done
next
  assume "source_line l"
  then obtain w1 w2 w3 a b where
    l: "l = w1 @ ''source'' @ w2 @ ''='' @ w3 @ [CHR 0x22] @ a @ ''examples'' @ b @ [CHR 0x22]"
    and ws: "blank w1" "blank w2" "blank w3"
    and ab: "a \<noteq> []" "b \<noteq> []" "one_line a" "one_line b"
    unfolding source_line_def by blast
  show "rx_lang line_rx l"
    unfolding l line_rx_def lits_def
    apply (simp only: append_Cons append_Nil list.map)
    apply (intro star_thenI lit_thenI plus_thenI ws ab)
    apply simp
    done
qed

lemma MatchString_line_rx: "MatchString line_rx l \<longleftrightarrow> source_line l"
  by (simp only: MatchString_lang line_rx_lang)

section \<open>The token pattern\<close>

lemma first_match_map: "first_match f (map g xs) = first_match (\<lambda>x. f (g x)) xs"
  by (induction xs) (auto split: option.splits)

lemma first_match_map_option:
  "first_match (\<lambda>x. map_option h (f x)) xs = map_option h (first_match f xs)"
  by (induction xs) (auto split: option.splits)

lemma match_one_lit:
  "rx_match [One (Lit c)] False s = (case s of [] \<Rightarrow> None | x # xs \<Rightarrow> if x = c then Some ([[x]], xs) else None)"
  by (cases s) auto

lemma push_front:
  "(\<lambda>(p, rest). map_option (\<lambda>(gs, out). (p # gs, out)) (g rest)) (case y of (p, r) \<Rightarrow> (x # p, r)) =
   map_option (\<lambda>(gs, out). ((x # hd gs) # tl gs, out))
     ((\<lambda>(p, rest). map_option (\<lambda>(gs, out). (p # gs, out)) (g rest)) y)"
  by (cases y) (simp add: option.map_comp comp_def case_prod_unfold)

lemma lazy_dot_quote:
  "one_line t \<Longrightarrow>
   rx_match [Lazy Dot, One (Lit CHR 0x22)] False t =
     (if CHR 0x22 \<in> set t
      then Some ([takeWhile (\<lambda>c. c \<noteq> CHR 0x22) t, [CHR 0x22]],
                 tl (dropWhile (\<lambda>c. c \<noteq> CHR 0x22) t))
      else None)"
proof (induction t)
  case Nil
  then show ?case by simp
next
  case (Cons x xs)
  let ?F = "\<lambda>(p, rest). map_option (\<lambda>(gs, out). (p # gs, out))
              (rx_match [One (Lit CHR 0x22)] False rest)"
  let ?h = "\<lambda>(gs, out). ((x # hd gs) # tl gs, out)"
  from Cons.prems have x: "x \<noteq> CHR 0x0A" and xs: "one_line xs"
    by (auto simp: one_line_def)
  have step: "rx_match [Lazy Dot, One (Lit CHR 0x22)] False (x # xs) =
        (case ?F ([], x # xs) of Some y \<Rightarrow> Some y
         | None \<Rightarrow> first_match (\<lambda>y. ?F (case y of (p, r) \<Rightarrow> (x # p, r))) (spans Dot xs))"
    using x by (subst rx_match.simps(2)) (simp add: first_match_map del: rx_match.simps cong: option.case_cong)
  have comp: "(\<lambda>y. ?F (case y of (p, r) \<Rightarrow> (x # p, r))) = (\<lambda>y. map_option ?h (?F y))"
    by (rule ext) (rule push_front)
  have rec: "first_match (\<lambda>y. ?F (case y of (p, r) \<Rightarrow> (x # p, r))) (spans Dot xs) =
        map_option ?h (rx_match [Lazy Dot, One (Lit CHR 0x22)] False xs)"
    unfolding comp first_match_map_option by simp
  show ?case
    unfolding step rec Cons.IH[OF xs]
    by (simp add: match_one_lit)
qed


declare find_all.simps [simp del]

lemma quote_match_Nil: "rx_match quote_rx False [] = None"
  by (simp add: quote_rx_def)

lemma quote_match_Cons:
  assumes "one_line xs"
  shows "rx_match quote_rx False (x # xs) =
     (if x = CHR 0x22 \<and> CHR 0x22 \<in> set xs
      then Some ([[CHR 0x22], takeWhile (\<lambda>c. c \<noteq> CHR 0x22) xs, [CHR 0x22]],
                 tl (dropWhile (\<lambda>c. c \<noteq> CHR 0x22) xs))
      else None)"
  unfolding quote_rx_def
  by (subst rx_match.simps(2)) (simp add: lazy_dot_quote[OF assms] del: rx_match.simps)

lemma quote_search_none:
  "CHR 0x22 \<notin> set s \<Longrightarrow> one_line s \<Longrightarrow> rx_search quote_rx s = None"
  by (induction s) (auto simp: quote_match_Nil quote_match_Cons one_line_def)

lemma quote_search:
  "one_line s \<Longrightarrow>
   rx_search quote_rx s =
     (case dropWhile (\<lambda>c. c \<noteq> CHR 0x22) s of
        [] \<Rightarrow> None
      | x # t \<Rightarrow>
          if CHR 0x22 \<in> set t
          then Some ([[CHR 0x22], takeWhile (\<lambda>c. c \<noteq> CHR 0x22) t, [CHR 0x22]],
                     tl (dropWhile (\<lambda>c. c \<noteq> CHR 0x22) t))
          else None)"
proof (induction s)
  case Nil
  then show ?case by (simp add: quote_match_Nil)
next
  case (Cons x xs)
  then have xs: "one_line xs" by (simp add: one_line_def)
  show ?case
    using Cons.IH[OF xs] quote_search_none[OF _ xs]
    by (simp add: quote_match_Cons[OF xs])
qed

lemma quoted_inside:
  "quoted (Some acc) xs =
     (if CHR 0x22 \<in> set xs
      then (rev acc @ takeWhile (\<lambda>c. c \<noteq> CHR 0x22) xs) #
             quoted None (tl (dropWhile (\<lambda>c. c \<noteq> CHR 0x22) xs))
      else [])"
  by (induction xs arbitrary: acc) auto

lemma quoted_outside:
  "quoted None s =
     (case dropWhile (\<lambda>c. c \<noteq> CHR 0x22) s of
        [] \<Rightarrow> []
      | x # t \<Rightarrow>
          if CHR 0x22 \<in> set t
          then takeWhile (\<lambda>c. c \<noteq> CHR 0x22) t #
                 quoted None (tl (dropWhile (\<lambda>c. c \<noteq> CHR 0x22) t))
          else [])"
  by (induction s) (auto simp: quoted_inside)

lemma length_after_quote:
  "dropWhile (\<lambda>c. c \<noteq> CHR 0x22) s = x # t \<Longrightarrow>
   length (tl (dropWhile (\<lambda>c. c \<noteq> CHR 0x22) t)) < length s"
proof -
  assume a: "dropWhile (\<lambda>c. c \<noteq> CHR 0x22) s = x # t"
  have "length (x # t) \<le> length s"
    unfolding a[symmetric] by (rule length_dropWhile_le)
  moreover have "length (tl (dropWhile (\<lambda>c. c \<noteq> CHR 0x22) t)) \<le> length t"
    using length_dropWhile_le[of "\<lambda>c. c \<noteq> CHR 0x22" t] by simp
  ultimately show ?thesis by simp
qed

lemma set_tl_subset: "set (tl xs) \<subseteq> set xs"
  by (cases xs) auto

lemma set_dropWhile_subset: "set (dropWhile P xs) \<subseteq> set xs"
  by (rule subsetI) (erule set_dropWhileD)

lemma one_line_after_quote:
  assumes s: "one_line s" and a: "dropWhile (\<lambda>c. c \<noteq> CHR 0x22) s = x # t"
  shows "one_line t \<and> one_line (tl (dropWhile (\<lambda>c. c \<noteq> CHR 0x22) t))"
proof -
  have "set (x # t) \<subseteq> set s"
    unfolding a[symmetric] by (rule set_dropWhile_subset)
  then have t: "CHR 0x0A \<notin> set t" using s unfolding one_line_def by auto
  have "set (tl (dropWhile (\<lambda>c. c \<noteq> CHR 0x22) t)) \<subseteq> set t"
    using set_tl_subset set_dropWhile_subset by (rule subset_trans)
  then show ?thesis using t unfolding one_line_def by blast
qed

lemma find_all_quote:
  "one_line s \<Longrightarrow>
   find_all quote_rx s = map (\<lambda>t. [[CHR 0x22], t, [CHR 0x22]]) (quoted_tokens s)"
proof (induction "length s" arbitrary: s rule: less_induct)
  case less
  show ?case
  proof (cases "dropWhile (\<lambda>c. c \<noteq> CHR 0x22) s")
    case Nil
    show ?thesis
      by (subst find_all.simps, subst quoted_tokens_def, subst quoted_outside)
         (simp only: quote_search[OF less.prems] Nil list.case option.case list.map)
  next
    case (Cons x t)
    let ?rest = "tl (dropWhile (\<lambda>c. c \<noteq> CHR 0x22) t)"
    have len: "length ?rest < length s" by (rule length_after_quote[OF Cons])
    have ol: "one_line ?rest" using one_line_after_quote[OF less.prems Cons] by simp
    have IH: "find_all quote_rx ?rest = map (\<lambda>t. [[CHR 0x22], t, [CHR 0x22]]) (quoted None ?rest)"
      using less.hyps[OF len ol] by (simp add: quoted_tokens_def)
    show ?thesis
      apply (subst find_all.simps, subst quoted_tokens_def, subst quoted_outside)
      apply (simp only: quote_search[OF less.prems] Cons len IH list.case option.case list.map
            if_True case_prod_conv split: if_splits)
      apply simp
      done
  qed
qed

section \<open>The loops in closed form\<close>

lemma strings_Contains_sublist: "strings_Contains s substr \<longleftrightarrow> sublist substr s"
  by (induction s) (auto simp: sublist_Cons_right)

lemma slices_Contains_set: "slices_Contains xs v \<longleftrightarrow> v \<in> set xs"
  by (induction xs) auto

lemma tflog_Info_fs [simp]:
  "fs_dirs (tflog_Info m w) = fs_dirs w" "fs_files (tflog_Info m w) = fs_files w"
  by (simp_all add: tflog_Info_def)

lemma emit_loop_eq:
  "emit_loop ms result w =
     (result @ map (\<lambda>m. filepath_Base (m ! 1)) ms,
      w\<lparr>tf_log := tf_log w @ map (\<lambda>m. filepath_Base (m ! 1)) ms\<rparr>)"
  by (induction ms arbitrary: result w) (simp_all add: tflog_Info_def Let_def)

lemma scan_line_eq:
  "scan_line l result w = (result @ line_refs l, w\<lparr>tf_log := tf_log w @ line_refs l\<rparr>)"
  by (simp add: scan_line_def line_refs_def emit_loop_eq)

lemma scan_loop_eq:
  "scan_loop ls result w = (result @ refs_of ls, w\<lparr>tf_log := tf_log w @ refs_of ls\<rparr>)"
  by (induction ls arbitrary: result w) (simp_all add: scan_line_eq refs_of_def)

lemma searchFile_eq:
  "searchFile file pat ed w =
     (case fs_files w file of
        None \<Rightarrow> (Inl (FileOpenError file), w)
      | Some f \<Rightarrow> (Inr (refs_of (sc_lines f)), w\<lparr>tf_log := tf_log w @ refs_of (sc_lines f)\<rparr>))"
  by (simp add: searchFile_def scan_loop_eq split: option.splits)

lemma examples_loop_eq: "examples_loop files acc = acc @ enumerated files"
  by (induction files arbitrary: acc) (simp_all add: enumerated_def)

lemma missing_loop_eq:
  "missing_loop es tests acc = acc @ filter (\<lambda>e. e \<notin> set tests) es"
  by (induction es arbitrary: acc) (simp_all add: slices_Contains_set)

lemma file_refs_log [simp]: "file_refs (w\<lparr>tf_log := x\<rparr>) = file_refs w"
  by (rule ext) (simp add: file_refs_def)

lemma selected_files_Nil [simp]: "selected_files td f [] = []"
  by (simp add: selected_files_def)

lemma selected_files_Cons:
  "selected_files td f (d # ds) =
     (if \<not> de_is_dir d \<and> strings_Contains (de_name d) f
      then filepath_Join td (de_name d) # selected_files td f ds
      else selected_files td f ds)"
  by (simp add: selected_files_def strings_Contains_sublist)

lemma tests_loop_ok:
  "\<forall>p\<in>set (selected_files td f tfs). fs_files w p \<noteq> None \<Longrightarrow>
   tests_loop tfs td f sf ed tests w =
     (Inr (tests @ concat (map (file_refs w) (selected_files td f tfs))),
      w\<lparr>tf_log := tf_log w @ concat (map (\<lambda>p. p # file_refs w p) (selected_files td f tfs))\<rparr>)"
proof (induction tfs arbitrary: tests w)
  case Nil
  then show ?case by simp
next
  case (Cons d ds)
  show ?case
  proof (cases "\<not> de_is_dir d \<and> strings_Contains (de_name d) f")
    case False
    with Cons show ?thesis by (auto simp: selected_files_Cons)
  next
    case True
    let ?p = "filepath_Join td (de_name d)"
    from Cons.prems True obtain sc where sc: "fs_files w ?p = Some sc"
      by (auto simp: selected_files_Cons)
    let ?w2 = "w\<lparr>tf_log := tf_log w @ [?p] @ refs_of (sc_lines sc)\<rparr>"
    have rest: "\<forall>p\<in>set (selected_files td f ds). fs_files ?w2 p \<noteq> None"
      using Cons.prems True by (simp add: selected_files_Cons)
    have fr: "file_refs w ?p = refs_of (sc_lines sc)"
      by (simp add: file_refs_def sc)
    show ?thesis
      using True Cons.IH[OF rest, of "tests @ refs_of (sc_lines sc)"]
      by (simp add: selected_files_Cons searchFile_eq sc tflog_Info_def fr)
  qed
qed

lemma tests_loop_fs:
  "tests_loop tfs td f sf ed tests w = (r, w') \<Longrightarrow>
   fs_dirs w' = fs_dirs w \<and> fs_files w' = fs_files w"
proof (induction tfs arbitrary: tests w)
  case Nil
  then show ?case by auto
next
  case (Cons d ds)
  show ?case
  proof (cases "\<not> de_is_dir d \<and> strings_Contains (de_name d) f")
    case False
    with Cons show ?thesis by auto
  next
    case True
    show ?thesis
    proof (cases "fs_files w (filepath_Join td (de_name d))")
      case None
      with Cons.prems True show ?thesis
        by (auto simp: searchFile_eq tflog_Info_def Let_def)
    next
      case (Some sc)
      with Cons.prems True Cons.IH show ?thesis
        by (fastforce simp: searchFile_eq tflog_Info_def Let_def)
    qed
  qed
qed

lemma tests_loop_same:
  "fs_files w2 = fs_files w \<Longrightarrow>
   fst (tests_loop tfs td f sf ed tests w2) = fst (tests_loop tfs td f sf ed tests w)"
proof (induction tfs arbitrary: tests w w2)
  case Nil
  then show ?case by simp
next
  case (Cons d ds)
  show ?case
  proof (cases "\<not> de_is_dir d \<and> strings_Contains (de_name d) f")
    case False
    then have skip: "tests_loop (d # ds) td f sf ed tests v = tests_loop ds td f sf ed tests v" for v
      by auto
    show ?thesis
      unfolding skip by (rule Cons.IH) (rule Cons.prems)
  next
    case True
    let ?p = "filepath_Join td (de_name d)"
    show ?thesis
    proof (cases "fs_files w ?p")
      case None
      then have "fs_files w2 ?p = None" by (simp add: Cons.prems)
      with None True show ?thesis
        by (simp add: searchFile_eq tflog_Info_def Let_def)
    next
      case (Some sc)
      then have sc2: "fs_files w2 ?p = Some sc" by (simp add: Cons.prems)
      have step: "tests_loop (d # ds) td f sf ed tests v =
            tests_loop ds td f sf ed (tests @ refs_of (sc_lines sc))
              (v\<lparr>tf_log := tf_log v @ [?p] @ refs_of (sc_lines sc)\<rparr>)"
        if "fs_files v ?p = Some sc" for v
        using True that by (simp add: searchFile_eq tflog_Info_def Let_def)
      show ?thesis
        unfolding step[OF Some] step[OF sc2]
        by (rule Cons.IH) (simp add: Cons.prems)
    qed
  qed
qed

section \<open>The operation in closed form\<close>

lemma tests_loop_Inr_opens:
  "tests_loop tfs td f sf ed tests w = (Inr r, w') \<Longrightarrow>
   \<forall>p\<in>set (selected_files td f tfs). fs_files w p \<noteq> None"
proof (induction tfs arbitrary: tests w)
  case Nil
  then show ?case by simp
next
  case (Cons d ds)
  show ?case
  proof (cases "\<not> de_is_dir d \<and> strings_Contains (de_name d) f")
    case False
    then have skip: "tests_loop (d # ds) td f sf ed tests w = tests_loop ds td f sf ed tests w"
      by auto
    from False have sel: "selected_files td f (d # ds) = selected_files td f ds"
      by (auto simp: selected_files_Cons)
    show ?thesis
      unfolding sel using Cons.prems unfolding skip by (rule Cons.IH)
  next
    case True
    let ?p = "filepath_Join td (de_name d)"
    from True have sel: "selected_files td f (d # ds) = ?p # selected_files td f ds"
      by (simp add: selected_files_Cons)
    show ?thesis
    proof (cases "fs_files w ?p")
      case None
      with Cons.prems True show ?thesis
        by (simp add: searchFile_eq tflog_Info_def Let_def)
    next
      case (Some sc)
      let ?w2 = "w\<lparr>tf_log := tf_log w @ [?p] @ refs_of (sc_lines sc)\<rparr>"
      have "tests_loop ds td f sf ed (tests @ refs_of (sc_lines sc)) ?w2 = (Inr r, w')"
        using Cons.prems True Some by (simp add: searchFile_eq tflog_Info_def Let_def)
      then have "\<forall>p\<in>set (selected_files td f ds). fs_files ?w2 p \<noteq> None"
        by (rule Cons.IH)
      then show ?thesis
        unfolding sel using Some by simp
    qed
  qed
qed

lemma findMissingTests_ok:
  assumes "fs_dirs w ed = Some exs" and "fs_dirs w td = Some tfs"
    and "\<forall>p\<in>set (selected_files td f tfs). fs_files w p \<noteq> None"
  shows "findMissingTests ed td f w =
     (Inr (filter (\<lambda>e. e \<notin> set (concat (map (file_refs w) (selected_files td f tfs))))
             (enumerated exs)),
      w\<lparr>tf_log := tf_log w @ banner #
           concat (map (\<lambda>p. p # file_refs w p) (selected_files td f tfs))\<rparr>)"
proof -
  let ?w1 = "tflog_Info banner w"
  have "\<forall>p\<in>set (selected_files td f tfs). fs_files ?w1 p \<noteq> None"
    using assms(3) by simp
  from tests_loop_ok[OF this]
  have "tests_loop tfs td f ''source = \"./examples'' ed [] ?w1 =
     (Inr (concat (map (file_refs w) (selected_files td f tfs))),
      w\<lparr>tf_log := tf_log w @ banner #
           concat (map (\<lambda>p. p # file_refs w p) (selected_files td f tfs))\<rparr>)"
    by (simp add: tflog_Info_def)
  then show ?thesis
    using assms(1,2)
    by (simp add: findMissingTests_def Let_def banner_def examples_loop_eq missing_loop_eq)
qed

lemma findMissingTests_Inr:
  assumes "findMissingTests ed td f w = (Inr missing, w')"
    and "fs_dirs w td = Some tfs"
  shows "\<forall>p\<in>set (selected_files td f tfs). fs_files w p \<noteq> None"
proof -
  from assms obtain exs where exs: "fs_dirs w ed = Some exs"
    by (cases "fs_dirs w ed") (auto simp: findMissingTests_def)
  let ?w1 = "tflog_Info banner w"
  obtain r w2 where tl: "tests_loop tfs td f ''source = \"./examples'' ed [] ?w1 = (r, w2)"
    by (cases "tests_loop tfs td f ''source = \"./examples'' ed [] ?w1") auto
  from assms exs tl obtain tests where "r = Inr tests"
    by (cases r) (auto simp: findMissingTests_def Let_def banner_def)
  with tl have "\<forall>p\<in>set (selected_files td f tfs). fs_files ?w1 p \<noteq> None"
    by (auto dest: tests_loop_Inr_opens)
  then show ?thesis by simp
qed

lemma findMissingTests_fs:
  assumes "findMissingTests ed td f w = (r, w')"
  shows "fs_dirs w' = fs_dirs w \<and> fs_files w' = fs_files w"
proof (cases "fs_dirs w ed")
  case None
  with assms show ?thesis by (auto simp: findMissingTests_def)
next
  case (Some exs)
  show ?thesis
  proof (cases "fs_dirs w td")
    case None
    with assms Some show ?thesis by (auto simp: findMissingTests_def)
  next
    case (Some tfs)
    let ?w1 = "tflog_Info banner w"
    obtain r1 w2 where tl: "tests_loop tfs td f ''source = \"./examples'' ed [] ?w1 = (r1, w2)"
      by (cases "tests_loop tfs td f ''source = \"./examples'' ed [] ?w1") auto
    from tests_loop_fs[OF tl] have fs: "fs_dirs w2 = fs_dirs w \<and> fs_files w2 = fs_files w"
      by simp
    from assms \<open>fs_dirs w ed = Some exs\<close> Some tl have "w' = w2"
      by (cases r1) (auto simp: findMissingTests_def Let_def banner_def)
    with fs show ?thesis by simp
  qed
qed

lemma findMissingTests_same:
  assumes "fs_dirs w2 = fs_dirs w" and "fs_files w2 = fs_files w"
  shows "fst (findMissingTests ed td f w2) = fst (findMissingTests ed td f w)"
proof (cases "fs_dirs w ed")
  case None
  with assms show ?thesis by (simp add: findMissingTests_def)
next
  case (Some exs)
  note exs = this
  show ?thesis
  proof (cases "fs_dirs w td")
    case None
    with assms exs show ?thesis by (simp add: findMissingTests_def)
  next
    case (Some tfs)
    let ?sf = "''source = \"./examples''"
    obtain r1 v1 where t1: "tests_loop tfs td f ?sf ed [] (tflog_Info banner w) = (r1, v1)"
      by (cases "tests_loop tfs td f ?sf ed [] (tflog_Info banner w)") auto
    obtain r2 v2 where t2: "tests_loop tfs td f ?sf ed [] (tflog_Info banner w2) = (r2, v2)"
      by (cases "tests_loop tfs td f ?sf ed [] (tflog_Info banner w2)") auto
    have "fst (tests_loop tfs td f ?sf ed [] (tflog_Info banner w2)) =
          fst (tests_loop tfs td f ?sf ed [] (tflog_Info banner w))"
      by (rule tests_loop_same) (simp add: assms)
    then have r: "r2 = r1" by (simp add: t1 t2)
    have d2: "fs_dirs w2 ed = Some exs" "fs_dirs w2 td = Some tfs"
      using assms exs Some by simp_all
    show ?thesis
      using t1 t2 exs Some d2 unfolding r
      by (cases r1) (simp_all add: findMissingTests_def Let_def banner_def)
  qed
qed

section \<open>Concrete runs and auxiliary facts\<close>

lemma join_tests [simp]:
  "filepath_Join ''tests'' ''basic_test.cfg'' = ''tests/basic_test.cfg''"
  "filepath_Join ''tests'' ''notes.txt'' = ''tests/notes.txt''"
  "filepath_Join ''tests'' ''main_test.tf'' = ''tests/main_test.tf''"
  by (simp_all add: filepath_Join_def filepath_Clean_def path_elements_def clean_step_def)

lemma refs_basic: "line_refs ''  source = \"./examples/basic\"'' = [''basic'']"
  by code_simp

lemma refs_advanced: "line_refs ''source = \"./examples/advanced\"'' = [''advanced'']"
  by code_simp

lemma refs_a: "line_refs ''source = \"./examples/a\"'' = [''a'']"
  by code_simp

lemma fixture_run:
  "findMissingTests ''examples'' ''tests'' ''_test.cfg'' fixture_world =
     (Inr [''advanced''],
      fixture_world\<lparr>tf_log := [banner, ''tests/basic_test.cfg'', ''basic'']\<rparr>)"
proof -
  have sel: "selected_files ''tests'' ''_test.cfg'' [plain_file ''basic_test.cfg''] =
      [''tests/basic_test.cfg'']"
    by (simp add: selected_files_Cons plain_file_def)
  have d: "fs_dirs fixture_world ''examples'' = Some [subdir ''advanced'', subdir ''basic'']"
    "fs_dirs fixture_world ''tests'' = Some [plain_file ''basic_test.cfg'']"
    by (simp_all add: fixture_world_def mk_world_def)
  have fr: "file_refs fixture_world ''tests/basic_test.cfg'' = [''basic'']"
    by (simp add: file_refs_def fixture_world_def mk_world_def refs_of_def refs_basic)
  have op: "\<forall>p\<in>set (selected_files ''tests'' ''_test.cfg'' [plain_file ''basic_test.cfg'']).
      fs_files fixture_world p \<noteq> None"
    unfolding sel by (simp add: fixture_world_def mk_world_def)
  have lg: "tf_log fixture_world = []"
    by (simp add: fixture_world_def mk_world_def)
  show ?thesis
    unfolding findMissingTests_ok[OF d op] sel
    by (simp add: fr lg enumerated_def subdir_def)
qed

lemma mk_world_sel [simp]:
  "fs_dirs (mk_world ds fs) = map_of ds"
  "fs_files (mk_world ds fs) = map_of fs"
  "tf_log (mk_world ds fs) = []"
  by (simp_all add: mk_world_def)

lemma notes_run:
  "findMissingTests ''examples'' ''tests'' ''_test.cfg'' notes_world =
     (Inr [''advanced''],
      notes_world\<lparr>tf_log := [banner, ''tests/basic_test.cfg'', ''basic'']\<rparr>)"
proof -
  let ?tfs = "[plain_file ''basic_test.cfg'', subdir ''more_test.cfg'', plain_file ''notes.txt'']"
  have sel: "selected_files ''tests'' ''_test.cfg'' ?tfs = [''tests/basic_test.cfg'']"
    by (simp add: selected_files_Cons plain_file_def subdir_def)
  have d: "fs_dirs notes_world ''examples'' = Some [subdir ''advanced'', subdir ''basic'']"
    "fs_dirs notes_world ''tests'' = Some ?tfs"
    by (simp_all add: notes_world_def)
  have fr: "file_refs notes_world ''tests/basic_test.cfg'' = [''basic'']"
    by (simp add: file_refs_def notes_world_def refs_of_def refs_basic)
  have op: "\<forall>p\<in>set (selected_files ''tests'' ''_test.cfg'' ?tfs). fs_files notes_world p \<noteq> None"
    unfolding sel by (simp add: notes_world_def)
  have lg: "tf_log notes_world = []"
    by (simp add: notes_world_def)
  show ?thesis
    unfolding findMissingTests_ok[OF d op] sel
    by (simp add: fr lg enumerated_def subdir_def)
qed

lemma notes_run_all:
  "findMissingTests ''examples'' ''tests'' [] notes_world =
     (Inr [],
      notes_world\<lparr>tf_log := [banner, ''tests/basic_test.cfg'', ''basic'',
                                ''tests/notes.txt'', ''advanced'']\<rparr>)"
proof -
  let ?tfs = "[plain_file ''basic_test.cfg'', subdir ''more_test.cfg'', plain_file ''notes.txt'']"
  have sel: "selected_files ''tests'' [] ?tfs = [''tests/basic_test.cfg'', ''tests/notes.txt'']"
    by (simp add: selected_files_Cons plain_file_def subdir_def)
  have d: "fs_dirs notes_world ''examples'' = Some [subdir ''advanced'', subdir ''basic'']"
    "fs_dirs notes_world ''tests'' = Some ?tfs"
    by (simp_all add: notes_world_def)
  have fr: "file_refs notes_world ''tests/basic_test.cfg'' = [''basic'']"
    "file_refs notes_world ''tests/notes.txt'' = [''advanced'']"
    by (simp_all add: file_refs_def notes_world_def refs_of_def refs_basic refs_advanced)
  have op: "\<forall>p\<in>set (selected_files ''tests'' [] ?tfs). fs_files notes_world p \<noteq> None"
    unfolding sel by (simp add: notes_world_def)
  have lg: "tf_log notes_world = []"
    by (simp add: notes_world_def)
  show ?thesis
    unfolding findMissingTests_ok[OF d op] sel
    by (simp add: fr lg enumerated_def subdir_def)
qed

lemma selected_files_substring:
  "selected_files td f tfs =
     map (\<lambda>d. filepath_Join td (de_name d))
       (filter (\<lambda>d. \<not> de_is_dir d \<and> (\<exists>pre post. de_name d = pre @ f @ post)) tfs)"
  by (simp add: selected_files_def sublist_def)

lemma file_refs_agree:
  "fs_files v p = fs_files w p \<Longrightarrow> file_refs v p = file_refs w p"
  by (simp add: file_refs_def)

lemma selected_files_empty_filter:
  "selected_files td [] tfs =
     map (\<lambda>d. filepath_Join td (de_name d)) (filter (\<lambda>d. \<not> de_is_dir d) tfs)"
  by (simp add: selected_files_def)

lemma strings_Contains_empty: "strings_Contains nm []"
  by (simp add: strings_Contains_sublist)

lemma filter_the_one:
  "distinct xs \<Longrightarrow> filter (\<lambda>e. e = x) xs = (if x \<in> set xs then [x] else [])"
  by (induction xs) auto

lemma line_in_refs: "l \<in> set ls \<Longrightarrow> set (line_refs l) \<subseteq> set (refs_of ls)"
  by (auto simp: refs_of_def)

lemma tests_loop_no_scan_error:
  "fst (tests_loop tfs td f sf ed tests w) \<noteq> Inl (FileScanError p)"
proof (induction tfs arbitrary: tests w)
  case Nil
  then show ?case by simp
next
  case (Cons d ds)
  show ?case
  proof (cases "\<not> de_is_dir d \<and> strings_Contains (de_name d) f")
    case False
    then have skip: "tests_loop (d # ds) td f sf ed tests w = tests_loop ds td f sf ed tests w"
      by auto
    show ?thesis unfolding skip by (rule Cons.IH)
  next
    case True
    show ?thesis
    proof (cases "fs_files w (filepath_Join td (de_name d))")
      case None
      with True show ?thesis
        by (simp add: searchFile_eq tflog_Info_def Let_def)
    next
      case (Some sc)
      with True Cons.IH show ?thesis
        by (simp add: searchFile_eq tflog_Info_def Let_def)
    qed
  qed
qed

lemma no_scan_error: "fst (findMissingTests ed td f w) \<noteq> Inl (FileScanError p)"
proof (cases "fs_dirs w ed")
  case None
  then show ?thesis by (simp add: findMissingTests_def)
next
  case (Some exs)
  note exs = this
  show ?thesis
  proof (cases "fs_dirs w td")
    case None
    with exs show ?thesis by (simp add: findMissingTests_def)
  next
    case (Some tfs)
    let ?sf = "''source = \"./examples''"
    obtain r1 v1 where t1: "tests_loop tfs td f ?sf ed [] (tflog_Info banner w) = (r1, v1)"
      by (cases "tests_loop tfs td f ?sf ed [] (tflog_Info banner w)") auto
    from tests_loop_no_scan_error[of tfs td f ?sf ed "[]" "tflog_Info banner w" p] t1
    have "r1 \<noteq> Inl (FileScanError p)" by simp
    with t1 exs Some show ?thesis
      by (cases r1) (simp_all add: findMissingTests_def Let_def banner_def)
  qed
qed

lemma quote_match_other:
  "x \<noteq> CHR 0x22 \<Longrightarrow> rx_match quote_rx False (x # xs) = None"
  by (simp add: quote_rx_def)

lemma quote_search_skip:
  "CHR 0x22 \<notin> set pre \<Longrightarrow>
   rx_search quote_rx (pre @ CHR 0x22 # t) =
     (case rx_match quote_rx False (CHR 0x22 # t) of
        Some m \<Rightarrow> Some m
      | None \<Rightarrow> rx_search quote_rx t)"
  by (induction pre) (simp_all add: quote_match_other[OF not_sym])

lemma find_all_found: "rx_search rx s = Some m \<Longrightarrow> find_all rx s \<noteq> []"
  by (subst find_all.simps) (simp split: prod.splits)

lemma space_not_quote: "accepts Space x \<Longrightarrow> x \<noteq> CHR 0x22"
  by (cases "x = CHR 0x22") simp_all

lemma blank_no_quote: "blank ws \<Longrightarrow> CHR 0x22 \<notin> set ws"
  unfolding blank_def list_all_iff using space_not_quote by blast

lemma source_line_tokens:
  assumes "source_line l"
  shows "find_all quote_rx l \<noteq> []"
proof -
  from assms obtain w1 w2 w3 a b where
    l: "l = w1 @ ''source'' @ w2 @ ''='' @ w3 @ [CHR 0x22] @ a @ ''examples'' @ b @ [CHR 0x22]"
    and ws: "blank w1" "blank w2" "blank w3"
    and ab: "one_line a" "one_line b"
    unfolding source_line_def by blast
  let ?pre = "w1 @ ''source'' @ w2 @ ''='' @ w3"
  let ?t = "a @ ''examples'' @ b @ [CHR 0x22]"
  have l': "l = ?pre @ CHR 0x22 # ?t" by (simp add: l)
  have nq: "CHR 0x22 \<notin> set ?pre"
    using ws by (auto dest: blank_no_quote)
  have ol: "one_line ?t"
    using ab by (auto simp: one_line_def)
  have "rx_match quote_rx False (CHR 0x22 # ?t) \<noteq> None"
    unfolding quote_match_Cons[OF ol] by simp
  then obtain m where "rx_search quote_rx l = Some m"
    unfolding l' quote_search_skip[OF nq] by auto
  then show ?thesis by (rule find_all_found)
qed

lemma scan_line_fst: "fst (scan_line l result w) = result @ line_refs l"
  by (simp add: scan_line_eq)

lemma line_refs_nonempty: "line_refs l \<noteq> [] \<longleftrightarrow> source_line l"
  using source_line_tokens[of l]
  by (auto simp: line_refs_def MatchString_line_rx)

lemma source_line_shape:
  assumes "source_line l"
  shows "l \<noteq> [] \<and> last l = CHR 0x22 \<and> (\<exists>ws. blank ws \<and> prefix (ws @ ''source'') l)"
proof -
  from assms obtain w1 w2 w3 a b where
    l: "l = w1 @ ''source'' @ w2 @ ''='' @ w3 @ [CHR 0x22] @ a @ ''examples'' @ b @ [CHR 0x22]"
    and ws: "blank w1"
    unfolding source_line_def by blast
  have "prefix (w1 @ ''source'') l"
    unfolding l by (simp add: prefix_def)
  with ws l show ?thesis by auto
qed

lemma matching_line_refs:
  assumes "MatchString line_rx l" and "one_line l"
  shows "line_refs l = map filepath_Base (quoted_tokens l)"
  using assms(1) by (simp add: line_refs_def find_all_quote[OF assms(2)] comp_def)

lemma last_element_append:
  "last_element (xs @ [c]) = (if c = CHR ''/'' then [] else last_element xs @ [c])"
  by (simp add: last_element_def)

lemma last_split_acc:
  "last (split_acc cur t) =
     (if CHR ''/'' \<in> set t then last_element t else rev cur @ t)"
proof (induction t arbitrary: cur)
  case Nil
  then show ?case by simp
next
  case (Cons x xs)
  have le: "last_element (x # xs) = (if CHR ''/'' \<in> set xs then last_element xs
      else if x = CHR ''/'' then xs else x # xs)"
    by (induction xs rule: rev_induct) (auto simp: last_element_def)
  have ne: "split_acc c xs \<noteq> []" for c
    by (induction xs arbitrary: c) auto
  show ?case
    by (simp add: Cons.IH le ne)
qed

lemma last_component_eq: "last_component t = last_element t"
proof -
  have "last_element t = t" if "CHR ''/'' \<notin> set t"
  proof -
    have tw: "takeWhile (\<lambda>c. c \<noteq> CHR ''/'') (rev t) = rev t"
      using that by (intro takeWhile_eq_all_conv[THEN iffD2]) auto
    show ?thesis unfolding last_element_def tw by simp
  qed
  then show ?thesis
    by (auto simp: last_component_def path_elements_def last_split_acc)
qed

lemma strip_trailing_Nil: "strip_trailing t = [] \<longleftrightarrow> set t \<subseteq> {CHR ''/''}"
  by (auto simp: strip_trailing_def dropWhile_eq_Nil_conv)

lemma strip_trailing_id: "t \<noteq> [] \<Longrightarrow> last t \<noteq> CHR ''/'' \<Longrightarrow> strip_trailing t = t"
  by (cases t rule: rev_cases) (simp_all add: strip_trailing_def)

lemma last_element_stripped:
  assumes "strip_trailing t \<noteq> []"
  shows "last_element (strip_trailing t) \<noteq> []"
proof -
  let ?d = "dropWhile (\<lambda>c. c = CHR ''/'') (rev t)"
  from assms have ne: "?d \<noteq> []" by (simp add: strip_trailing_def)
  then have "hd ?d \<noteq> CHR ''/''" by (rule hd_dropWhile)
  with ne have "takeWhile (\<lambda>c. c \<noteq> CHR ''/'') ?d \<noteq> []"
    by (cases ?d) auto
  then show ?thesis by (simp add: last_element_def strip_trailing_def)
qed

lemma filepath_Base_cases:
  "filepath_Base t =
     (if t = [] then ''.''
      else if set t \<subseteq> {CHR ''/''} then ''/''
      else last_component (strip_trailing t))"
proof (cases "strip_trailing t = []")
  case True
  then show ?thesis
    using strip_trailing_Nil[of t]
    by (simp add: filepath_Base_def last_element_def)
next
  case False
  then have "t \<noteq> []" by (auto simp: strip_trailing_def)
  with False last_element_stripped[OF False] show ?thesis
    using strip_trailing_Nil[of t]
    by (simp add: filepath_Base_def last_component_eq Let_def)
qed

section \<open>The claims\<close>

text \<open>
  C1, as the specification words it, fails: \<^verbatim>\<open>source = "examples/basic"\<close> is optional
  whitespace, \<open>source\<close>, \<open>=\<close> and a quoted string whose contents include \<open>examples\<close> (at
  their start), yet the code does not treat it as a matching line and emits nothing.
\<close>

theorem examples_at_start_counterexample:
  "spec_source_line ''source = \"examples/basic\"'' \<and>
   \<not> MatchString line_rx ''source = \"examples/basic\"'' \<and>
   fst (scan_line ''source = \"examples/basic\"'' [] (mk_world [] [])) = []"
proof -
  have "''source = \"examples/basic\"'' =
      [] @ ''source'' @ '' '' @ ''='' @ '' '' @ [CHR 0x22] @ ''examples/basic'' @ [CHR 0x22]"
    by simp
  moreover have "blank [] \<and> blank '' ''"
    by (simp add: blank_def)
  moreover have "sublist ''examples'' ''examples/basic''"
    unfolding sublist_def by (intro exI[of _ "[]"] exI[of _ "''/basic''"]) simp
  ultimately have a: "spec_source_line ''source = \"examples/basic\"''"
    unfolding spec_source_line_def by blast
  have b: "\<not> MatchString line_rx ''source = \"examples/basic\"''"
    by code_simp
  from a b show ?thesis
    by (simp add: scan_line_def)
qed

text \<open>
  C1, amended. A line is a matching line, and references are emitted from it, exactly
  when it consists of optional whitespace, \<open>source\<close>, optional whitespace, \<open>=\<close>, optional
  whitespace, a quote, at least one character, \<open>examples\<close>, at least one more character,
  and a quote that ends the line; the characters around \<open>examples\<close> are any but a
  newline, quotes included. In particular a line that emits a reference ends in a quote
  and starts with whitespace followed by \<open>source\<close>.
\<close>

theorem matching_line_is_anchored_source_assignment:
  "(MatchString line_rx l \<longleftrightarrow> source_line l) \<and>
   (fst (scan_line l result w) \<noteq> result \<longleftrightarrow> source_line l) \<and>
   (fst (scan_line l result w) \<noteq> result \<longrightarrow>
      l \<noteq> [] \<and> last l = CHR 0x22 \<and> (\<exists>ws. blank ws \<and> prefix (ws @ ''source'') l))"
proof -
  have emits: "fst (scan_line l result w) \<noteq> result \<longleftrightarrow> source_line l"
    by (simp add: scan_line_fst line_refs_nonempty)
  with MatchString_line_rx source_line_shape show ?thesis by blast
qed

theorem matching_line_is_anchored_source_assignment_witness:
  "source_line ''  source = \"./examples/basic\"'' \<and>
   fst (scan_line ''  source = \"./examples/basic\"'' [] (mk_world [] [])) = [''basic''] \<and>
   \<not> source_line ''# source = \"./examples/basic\"'' \<and>
   fst (scan_line ''# source = \"./examples/basic\"'' [] (mk_world [] [])) = [] \<and>
   \<not> source_line ''source = \"./examples/basic\" # basic'' \<and>
   fst (scan_line ''source = \"./examples/basic\" # basic'' [] (mk_world [] [])) = []"
proof -
  have m1: "MatchString line_rx ''  source = \"./examples/basic\"''"
    by code_simp
  have m2: "\<not> MatchString line_rx ''# source = \"./examples/basic\"''"
    by code_simp
  have m3: "\<not> MatchString line_rx ''source = \"./examples/basic\" # basic''"
    by code_simp
  from m1 m2 m3
    matching_line_is_anchored_source_assignment[of "''  source = \"./examples/basic\"''"]
    matching_line_is_anchored_source_assignment[of "''# source = \"./examples/basic\"''"]
    matching_line_is_anchored_source_assignment[of "''source = \"./examples/basic\" # basic''"]
  have "source_line ''  source = \"./examples/basic\"'' \<and>
      \<not> source_line ''# source = \"./examples/basic\"'' \<and>
      \<not> source_line ''source = \"./examples/basic\" # basic''"
    by blast
  moreover have "line_refs ''# source = \"./examples/basic\"'' = []"
    "line_refs ''source = \"./examples/basic\" # basic'' = []"
    using m2 m3 by (simp_all add: line_refs_def)
  ultimately show ?thesis
    by (simp add: scan_line_fst refs_basic)
qed

text \<open>
  C2. The scanner of \<open>tests/main_test.tf\<close> stops with an error after the first line.
  The operation does not fail: it returns a report in which \<open>b\<close> is missing, although
  the file references \<open>b\<close> after the point of the error. No run of the operation ends in
  a \<open>FileScanError\<close>.
\<close>

theorem scan_error_is_not_reported:
  "map_option sc_err (fs_files broken_scan_world ''tests/main_test.tf'') = Some True \<and>
   findMissingTests ''examples'' ''tests'' ''_test'' broken_scan_world =
     (Inr [''b''],
      broken_scan_world\<lparr>tf_log := [banner, ''tests/main_test.tf'', ''a'']\<rparr>) \<and>
   fst (findMissingTests ed td f w) \<noteq> Inl (FileScanError p)"
proof -
  let ?tfs = "[plain_file ''main_test.tf'']"
  have sel: "selected_files ''tests'' ''_test'' ?tfs = [''tests/main_test.tf'']"
    by (simp add: selected_files_Cons plain_file_def)
  have d: "fs_dirs broken_scan_world ''examples'' = Some [subdir ''a'', subdir ''b'']"
    "fs_dirs broken_scan_world ''tests'' = Some ?tfs"
    by (simp_all add: broken_scan_world_def)
  have fr: "file_refs broken_scan_world ''tests/main_test.tf'' = [''a'']"
    by (simp add: file_refs_def broken_scan_world_def refs_of_def refs_a)
  have op: "\<forall>p\<in>set (selected_files ''tests'' ''_test'' ?tfs). fs_files broken_scan_world p \<noteq> None"
    unfolding sel by (simp add: broken_scan_world_def)
  have lg: "tf_log broken_scan_world = []"
    by (simp add: broken_scan_world_def)
  have run: "findMissingTests ''examples'' ''tests'' ''_test'' broken_scan_world =
     (Inr [''b''],
      broken_scan_world\<lparr>tf_log := [banner, ''tests/main_test.tf'', ''a'']\<rparr>)"
    unfolding findMissingTests_ok[OF d op] sel
    by (simp add: fr lg enumerated_def subdir_def)
  have err: "map_option sc_err (fs_files broken_scan_world ''tests/main_test.tf'') = Some True"
    by (simp add: broken_scan_world_def)
  from run err no_scan_error show ?thesis by blast
qed

text \<open>
  C3. When the operation returns a report, the report is the list of the enumerated
  example names that are not among the references collected from the selected test
  files, in the order of the enumeration; it is a subsequence of the enumeration and
  holds no other name.
\<close>

theorem missing_report_is_filtered_enumeration:
  assumes "findMissingTests ed td f w = (Inr missing, w')"
    and "fs_dirs w ed = Some exs" and "fs_dirs w td = Some tfs"
  shows "missing =
           filter (\<lambda>e. e \<notin> set (concat (map (file_refs w) (selected_files td f tfs))))
             (enumerated exs) \<and>
         subseq missing (enumerated exs) \<and>
         set missing \<subseteq> set (enumerated exs)"
proof -
  have op: "\<forall>p\<in>set (selected_files td f tfs). fs_files w p \<noteq> None"
    using assms(1,3) by (rule findMissingTests_Inr)
  have "missing =
      filter (\<lambda>e. e \<notin> set (concat (map (file_refs w) (selected_files td f tfs))))
        (enumerated exs)"
    using assms(1) unfolding findMissingTests_ok[OF assms(2,3) op] by simp
  then show ?thesis by auto
qed

theorem missing_report_is_filtered_enumeration_witness:
  "findMissingTests ''examples'' ''tests'' ''_test.cfg'' fixture_world =
     (Inr [''advanced''],
      fixture_world\<lparr>tf_log := [banner, ''tests/basic_test.cfg'', ''basic'']\<rparr>) \<and>
   [''advanced''] =
     filter (\<lambda>e. e \<notin> set (concat (map (file_refs fixture_world)
                (selected_files ''tests'' ''_test.cfg'' [plain_file ''basic_test.cfg'']))))
       (enumerated [subdir ''advanced'', subdir ''basic'']) \<and>
   subseq [''advanced''] (enumerated [subdir ''advanced'', subdir ''basic'']) \<and>
   set [''advanced''] \<subseteq> set (enumerated [subdir ''advanced'', subdir ''basic''])"
proof -
  have d: "fs_dirs fixture_world ''examples'' = Some [subdir ''advanced'', subdir ''basic'']"
    "fs_dirs fixture_world ''tests'' = Some [plain_file ''basic_test.cfg'']"
    by (simp_all add: fixture_world_def mk_world_def)
  from missing_report_is_filtered_enumeration[OF fixture_run d] fixture_run
  show ?thesis by blast
qed

text \<open>
  C4. The examples root holds exactly the directories \<open>basic\<close> and \<open>advanced\<close>; the tests
  root holds the file \<open>basic_test.cfg\<close>, which has the line
  \<^verbatim>\<open>  source = "./examples/basic"\<close> and no line that yields the reference \<open>advanced\<close>; the
  filter is \<open>_test.cfg\<close>. Then the operation returns the report \<open>["advanced"]\<close>.
\<close>

theorem end_to_end_basic_advanced:
  assumes "fs_dirs w ed = Some exs"
    and "set (enumerated exs) = {''basic'', ''advanced''}" and "distinct (enumerated exs)"
    and "fs_dirs w td = Some [plain_file ''basic_test.cfg'']"
    and "fs_files w (filepath_Join td ''basic_test.cfg'') = Some f"
    and "''  source = \"./examples/basic\"'' \<in> set (sc_lines f)"
    and "''advanced'' \<notin> set (refs_of (sc_lines f))"
  shows "fst (findMissingTests ed td ''_test.cfg'' w) = Inr [''advanced'']"
proof -
  let ?p = "filepath_Join td ''basic_test.cfg''"
  have sel: "selected_files td ''_test.cfg'' [plain_file ''basic_test.cfg''] = [?p]"
    by (simp add: selected_files_Cons plain_file_def)
  have op: "\<forall>p\<in>set (selected_files td ''_test.cfg'' [plain_file ''basic_test.cfg'']).
      fs_files w p \<noteq> None"
    unfolding sel using assms(5) by simp
  have fr: "file_refs w ?p = refs_of (sc_lines f)"
    by (simp add: file_refs_def assms(5))
  have basic: "''basic'' \<in> set (refs_of (sc_lines f))"
    using line_in_refs[OF assms(6)] by (simp add: refs_basic)
  have "filter (\<lambda>e. e \<notin> set (refs_of (sc_lines f))) (enumerated exs) =
        filter (\<lambda>e. e = ''advanced'') (enumerated exs)"
    by (rule filter_cong) (use assms(2,7) basic in auto)
  also have "\<dots> = [''advanced'']"
    using assms(2) by (simp add: filter_the_one[OF assms(3)])
  finally show ?thesis
    unfolding findMissingTests_ok[OF assms(1,4) op] sel by (simp add: fr)
qed

theorem end_to_end_basic_advanced_witness:
  "fst (findMissingTests ''examples'' ''tests'' ''_test.cfg'' fixture_world) = Inr [''advanced'']"
proof -
  have d: "fs_dirs fixture_world ''examples'' = Some [subdir ''advanced'', subdir ''basic'']"
    "fs_dirs fixture_world ''tests'' = Some [plain_file ''basic_test.cfg'']"
    by (simp_all add: fixture_world_def)
  have e: "set (enumerated [subdir ''advanced'', subdir ''basic'']) = {''basic'', ''advanced''}"
    "distinct (enumerated [subdir ''advanced'', subdir ''basic''])"
    by (auto simp: enumerated_def subdir_def)
  have f: "fs_files fixture_world (filepath_Join ''tests'' ''basic_test.cfg'') =
      Some \<lparr>sc_lines = [''  source = \"./examples/basic\"''], sc_err = False\<rparr>"
    by (simp add: fixture_world_def)
  have l: "''  source = \"./examples/basic\"'' \<in>
      set (sc_lines \<lparr>sc_lines = [''  source = \"./examples/basic\"''], sc_err = False\<rparr>)"
    by simp
  have n: "''advanced'' \<notin>
      set (refs_of (sc_lines \<lparr>sc_lines = [''  source = \"./examples/basic\"''], sc_err = False\<rparr>))"
    by (simp add: refs_of_def refs_basic)
  show ?thesis
    by (rule end_to_end_basic_advanced[OF d(1) e d(2) f l n])
qed

text \<open>
  C5, as the specification words it, fails: on the matching line
  \<^verbatim>\<open>source = "./examples/basic/" ""\<close> the quoted substrings are \<^verbatim>\<open>./examples/basic/\<close> and
  the empty string, whose last slash-delimited components are both empty, yet the
  references emitted are \<open>basic\<close> and \<open>.\<close>.
\<close>

theorem reference_of_trailing_slash_counterexample:
  "MatchString line_rx ''source = \"./examples/basic/\" \"\"'' \<and>
   quoted_tokens ''source = \"./examples/basic/\" \"\"'' = [''./examples/basic/'', []] \<and>
   map last_component (quoted_tokens ''source = \"./examples/basic/\" \"\"'') = [[], []] \<and>
   fst (scan_line ''source = \"./examples/basic/\" \"\"'' [] (mk_world [] [])) =
     [''basic'', ''.'']"
proof -
  have m: "MatchString line_rx ''source = \"./examples/basic/\" \"\"''"
    by code_simp
  have o: "one_line ''source = \"./examples/basic/\" \"\"''"
    by (simp add: one_line_def)
  have q: "quoted_tokens ''source = \"./examples/basic/\" \"\"'' = [''./examples/basic/'', []]"
    by (simp add: quoted_tokens_def)
  have c: "map last_component [''./examples/basic/'', []] = [[], []]"
    by (simp add: last_component_eq last_element_def)
  have b: "map filepath_Base [''./examples/basic/'', []] = [''basic'', ''.'']"
    by (simp add: filepath_Base_def strip_trailing_def last_element_def)
  from m q c b show ?thesis
    by (simp add: scan_line_fst matching_line_refs[OF m o])
qed

text \<open>
  C5, amended. On a matching line the reference emitted for a quoted substring is its
  \<open>filepath.Base\<close>: \<open>.\<close> for the empty substring, \<open>/\<close> for one of slashes only, and
  otherwise the last slash-delimited component of the substring without its trailing
  slashes. For a non-empty substring that does not end in a slash this is its last
  slash-delimited component.
\<close>

theorem reference_is_base_of_token:
  assumes "MatchString line_rx l" and "one_line l"
  shows "fst (scan_line l result w) =
           result @
           map (\<lambda>t. if t = [] then ''.''
                    else if set t \<subseteq> {CHR ''/''} then ''/''
                    else last_component (strip_trailing t))
             (quoted_tokens l) \<and>
         (t \<noteq> [] \<and> last t \<noteq> CHR ''/'' \<longrightarrow>
            \<not> set t \<subseteq> {CHR ''/''} \<and> strip_trailing t = t)"
proof -
  have "filepath_Base = (\<lambda>t. if t = [] then ''.''
                    else if set t \<subseteq> {CHR ''/''} then ''/''
                    else last_component (strip_trailing t))"
    by (rule ext) (rule filepath_Base_cases)
  then have "fst (scan_line l result w) =
           result @
           map (\<lambda>t. if t = [] then ''.''
                    else if set t \<subseteq> {CHR ''/''} then ''/''
                    else last_component (strip_trailing t))
             (quoted_tokens l)"
    by (simp add: scan_line_fst matching_line_refs[OF assms])
  moreover have "\<not> set t \<subseteq> {CHR ''/''} \<and> strip_trailing t = t"
    if "t \<noteq> []" "last t \<noteq> CHR ''/''"
    using that strip_trailing_id[OF that] strip_trailing_Nil[of t] by simp
  ultimately show ?thesis by blast
qed

theorem reference_is_base_of_token_witness:
  "MatchString line_rx ''source = \"../../examples/group/basic\"'' \<and>
   one_line ''source = \"../../examples/group/basic\"'' \<and>
   quoted_tokens ''source = \"../../examples/group/basic\"'' = [''../../examples/group/basic''] \<and>
   last ''../../examples/group/basic'' \<noteq> CHR ''/'' \<and>
   strip_trailing ''../../examples/group/basic'' = ''../../examples/group/basic'' \<and>
   last_component ''../../examples/group/basic'' = ''basic'' \<and>
   fst (scan_line ''source = \"../../examples/group/basic\"'' [] (mk_world [] [])) = [''basic'']"
proof -
  have m: "MatchString line_rx ''source = \"../../examples/group/basic\"''"
    by code_simp
  have o: "one_line ''source = \"../../examples/group/basic\"''"
    by (simp add: one_line_def)
  have q: "quoted_tokens ''source = \"../../examples/group/basic\"'' =
      [''../../examples/group/basic'']"
    by (simp add: quoted_tokens_def)
  have t: "''../../examples/group/basic'' \<noteq> [] \<and> last ''../../examples/group/basic'' \<noteq> CHR ''/''"
    by simp
  have c: "last_component ''../../examples/group/basic'' = ''basic''"
    by (simp add: last_component_eq last_element_def)
  from reference_is_base_of_token[OF m o, of "[]" "mk_world [] []" "''../../examples/group/basic''"] t
  have "fst (scan_line ''source = \"../../examples/group/basic\"'' [] (mk_world [] [])) =
      map (\<lambda>t. if t = [] then ''.''
                    else if set t \<subseteq> {CHR ''/''} then ''/''
                    else last_component (strip_trailing t))
             (quoted_tokens ''source = \"../../examples/group/basic\"'') \<and>
      \<not> set ''../../examples/group/basic'' \<subseteq> {CHR ''/''} \<and>
      strip_trailing ''../../examples/group/basic'' = ''../../examples/group/basic''"
    by simp
  with m o q t c show ?thesis by simp
qed

text \<open>
  C6. On a line that matches the line pattern (a line the scanner delivers holds no
  newline), the references emitted are the results of \<open>filepath.Base\<close> on the
  double-quoted substrings of the line, one for each, in order.
\<close>

theorem one_reference_per_quoted_token:
  assumes "MatchString line_rx l" and "one_line l"
  shows "fst (scan_line l result w) = result @ map filepath_Base (quoted_tokens l)"
  by (simp add: scan_line_fst matching_line_refs[OF assms])

theorem one_reference_per_quoted_token_witness:
  "MatchString line_rx ''source = \"./examples/a\" \"./examples/b\"'' \<and>
   one_line ''source = \"./examples/a\" \"./examples/b\"'' \<and>
   quoted_tokens ''source = \"./examples/a\" \"./examples/b\"'' =
     [''./examples/a'', ''./examples/b''] \<and>
   fst (scan_line ''source = \"./examples/a\" \"./examples/b\"'' [] (mk_world [] [])) =
     [''a'', ''b'']"
proof -
  have m: "MatchString line_rx ''source = \"./examples/a\" \"./examples/b\"''"
    by code_simp
  have o: "one_line ''source = \"./examples/a\" \"./examples/b\"''"
    by (simp add: one_line_def)
  have q: "quoted_tokens ''source = \"./examples/a\" \"./examples/b\"'' =
      [''./examples/a'', ''./examples/b'']"
    by (simp add: quoted_tokens_def)
  have b: "map filepath_Base [''./examples/a'', ''./examples/b''] = [''a'', ''b'']"
    by (simp add: filepath_Base_def strip_trailing_def last_element_def)
  from one_reference_per_quoted_token[OF m o, of "[]" "mk_world [] []"] m o q b
  show ?thesis by simp
qed

text \<open>
  C7. The files scanned are the entries of the tests root that are not directories and
  whose name has the filter as a contiguous substring (bytes are compared, so case
  matters), in listing order. When each of them can be opened, the operation logs
  exactly these paths, each followed by the references found in it, and the report is
  computed from these references alone: changing any other file, its contents or
  whether it can be opened, leaves the result as it is.
\<close>

theorem only_files_matching_filter_are_scanned:
  assumes "fs_dirs w ed = Some exs" and "fs_dirs w td = Some tfs"
    and "\<forall>p\<in>set (selected_files td f tfs). fs_files w p \<noteq> None"
  shows "selected_files td f tfs =
           map (\<lambda>d. filepath_Join td (de_name d))
             (filter (\<lambda>d. \<not> de_is_dir d \<and> (\<exists>pre post. de_name d = pre @ f @ post)) tfs) \<and>
         findMissingTests ed td f w =
           (Inr (filter (\<lambda>e. e \<notin> set (concat (map (file_refs w) (selected_files td f tfs))))
                   (enumerated exs)),
            w\<lparr>tf_log := tf_log w @ banner #
                 concat (map (\<lambda>p. p # file_refs w p) (selected_files td f tfs))\<rparr>) \<and>
         (fs_dirs v = fs_dirs w \<and>
          (\<forall>p\<in>set (selected_files td f tfs). fs_files v p = fs_files w p) \<longrightarrow>
            fst (findMissingTests ed td f v) = fst (findMissingTests ed td f w))"
proof -
  let ?sel = "selected_files td f tfs"
  note run = findMissingTests_ok[OF assms]
  have other: "fst (findMissingTests ed td f v) = fst (findMissingTests ed td f w)"
    if dv: "fs_dirs v = fs_dirs w" and fv: "\<forall>p\<in>set ?sel. fs_files v p = fs_files w p"
  proof -
    have d: "fs_dirs v ed = Some exs" "fs_dirs v td = Some tfs"
      using assms(1,2) dv by simp_all
    have op: "\<forall>p\<in>set ?sel. fs_files v p \<noteq> None"
      using assms(3) fv by simp
    have "map (file_refs v) ?sel = map (file_refs w) ?sel"
      using fv by (auto intro: file_refs_agree)
    then show ?thesis
      unfolding run findMissingTests_ok[OF d op] by simp
  qed
  from run other selected_files_substring show ?thesis by blast
qed

theorem only_files_matching_filter_are_scanned_witness:
  "fs_dirs notes_world ''tests'' =
     Some [plain_file ''basic_test.cfg'', subdir ''more_test.cfg'', plain_file ''notes.txt''] \<and>
   selected_files ''tests'' ''_test.cfg''
     [plain_file ''basic_test.cfg'', subdir ''more_test.cfg'', plain_file ''notes.txt''] =
     [''tests/basic_test.cfg''] \<and>
   file_refs notes_world ''tests/notes.txt'' = [''advanced''] \<and>
   findMissingTests ''examples'' ''tests'' ''_test.cfg'' notes_world =
     (Inr [''advanced''],
      notes_world\<lparr>tf_log := [banner, ''tests/basic_test.cfg'', ''basic'']\<rparr>) \<and>
   fst (findMissingTests ''examples'' ''tests'' ''_test.cfg''
          (notes_world\<lparr>fs_files := (fs_files notes_world)(''tests/notes.txt'' := None)\<rparr>)) =
     Inr [''advanced'']"
proof -
  let ?tfs = "[plain_file ''basic_test.cfg'', subdir ''more_test.cfg'', plain_file ''notes.txt'']"
  let ?v = "notes_world\<lparr>fs_files := (fs_files notes_world)(''tests/notes.txt'' := None)\<rparr>"
  have sel: "selected_files ''tests'' ''_test.cfg'' ?tfs = [''tests/basic_test.cfg'']"
    by (simp add: selected_files_Cons plain_file_def subdir_def)
  have d: "fs_dirs notes_world ''examples'' = Some [subdir ''advanced'', subdir ''basic'']"
    "fs_dirs notes_world ''tests'' = Some ?tfs"
    by (simp_all add: notes_world_def)
  have op: "\<forall>p\<in>set (selected_files ''tests'' ''_test.cfg'' ?tfs). fs_files notes_world p \<noteq> None"
    unfolding sel by (simp add: notes_world_def)
  have v: "fs_dirs ?v = fs_dirs notes_world \<and>
      (\<forall>p\<in>set (selected_files ''tests'' ''_test.cfg'' ?tfs). fs_files ?v p = fs_files notes_world p)"
    unfolding sel by simp
  have fr: "file_refs notes_world ''tests/notes.txt'' = [''advanced'']"
    by (simp add: file_refs_def notes_world_def refs_of_def refs_advanced)
  from only_files_matching_filter_are_scanned[OF d op, of ?v] v
  have "fst (findMissingTests ''examples'' ''tests'' ''_test.cfg'' ?v) =
      fst (findMissingTests ''examples'' ''tests'' ''_test.cfg'' notes_world)"
    by blast
  then show ?thesis
    using d(2) sel fr notes_run by simp
qed

text \<open>
  C8. When the examples root cannot be listed, the operation fails with a
  \<open>DirectoryReadError\<close> for it; when the examples root can be listed and the tests root
  cannot, it fails with a \<open>DirectoryReadError\<close> for the tests root. In both cases the
  result is the error and no report, and nothing has been logged or scanned.
\<close>

theorem unlistable_root_is_fatal:
  "(fs_dirs w ed = None \<longrightarrow>
      findMissingTests ed td f w = (Inl (DirectoryReadError ed), w)) \<and>
   (fs_dirs w ed \<noteq> None \<and> fs_dirs w td = None \<longrightarrow>
      findMissingTests ed td f w = (Inl (DirectoryReadError td), w))"
  by (auto simp: findMissingTests_def)

theorem unlistable_root_is_fatal_witness:
  "fs_dirs (mk_world [] []) ''examples'' = None \<and>
   findMissingTests ''examples'' ''tests'' ''_test.cfg'' (mk_world [] []) =
     (Inl (DirectoryReadError ''examples''), mk_world [] []) \<and>
   fs_dirs (mk_world [(''examples'', [subdir ''basic''])] []) ''examples'' \<noteq> None \<and>
   fs_dirs (mk_world [(''examples'', [subdir ''basic''])] []) ''tests'' = None \<and>
   findMissingTests ''examples'' ''tests'' ''_test.cfg''
       (mk_world [(''examples'', [subdir ''basic''])] []) =
     (Inl (DirectoryReadError ''tests''), mk_world [(''examples'', [subdir ''basic''])] [])"
proof -
  have a: "fs_dirs (mk_world [] []) ''examples'' = None"
    by (simp add: mk_world_def)
  have b: "fs_dirs (mk_world [(''examples'', [subdir ''basic''])] []) ''examples'' \<noteq> None"
    "fs_dirs (mk_world [(''examples'', [subdir ''basic''])] []) ''tests'' = None"
    by (simp_all add: mk_world_def)
  from a b
    unlistable_root_is_fatal[of "mk_world [] []" "''examples''" "''tests''" "''_test.cfg''"]
    unlistable_root_is_fatal[of "mk_world [(''examples'', [subdir ''basic''])] []"
      "''examples''" "''tests''" "''_test.cfg''"]
  show ?thesis by blast
qed

text \<open>
  C9. A run leaves the directories and the files as they were; a second run on the world
  the first one left (only the log has grown) returns the same result, and so does a run
  on any world with the same directories and files.
\<close>

theorem rerun_gives_same_report:
  assumes "findMissingTests ed td f w = (r, w')"
  shows "fs_dirs w' = fs_dirs w \<and> fs_files w' = fs_files w \<and>
         fst (findMissingTests ed td f w') = r \<and>
         (fs_dirs v = fs_dirs w \<and> fs_files v = fs_files w \<longrightarrow>
            fst (findMissingTests ed td f v) = r)"
proof -
  have fs: "fs_dirs w' = fs_dirs w \<and> fs_files w' = fs_files w"
    using assms by (rule findMissingTests_fs)
  have same: "fst (findMissingTests ed td f u) = r"
    if "fs_dirs u = fs_dirs w" "fs_files u = fs_files w" for u
    using findMissingTests_same[OF that, of ed td f] assms by simp
  from fs same show ?thesis by blast
qed

theorem rerun_gives_same_report_witness:
  "findMissingTests ''examples'' ''tests'' ''_test.cfg'' fixture_world =
     (Inr [''advanced''],
      fixture_world\<lparr>tf_log := [banner, ''tests/basic_test.cfg'', ''basic'']\<rparr>) \<and>
   fs_dirs (fixture_world\<lparr>tf_log := [banner, ''tests/basic_test.cfg'', ''basic'']\<rparr>) =
     fs_dirs fixture_world \<and>
   fs_files (fixture_world\<lparr>tf_log := [banner, ''tests/basic_test.cfg'', ''basic'']\<rparr>) =
     fs_files fixture_world \<and>
   fst (findMissingTests ''examples'' ''tests'' ''_test.cfg''
         (fixture_world\<lparr>tf_log := [banner, ''tests/basic_test.cfg'', ''basic'']\<rparr>)) =
     Inr [''advanced''] \<and>
   fst (findMissingTests ''examples'' ''tests'' ''_test.cfg''
         (fixture_world\<lparr>tf_log := [''earlier line'']\<rparr>)) =
     Inr [''advanced'']"
proof -
  have v: "fs_dirs (fixture_world\<lparr>tf_log := [''earlier line'']\<rparr>) = fs_dirs fixture_world \<and>
      fs_files (fixture_world\<lparr>tf_log := [''earlier line'']\<rparr>) = fs_files fixture_world"
    by simp
  from rerun_gives_same_report[OF fixture_run, of "fixture_world\<lparr>tf_log := [''earlier line'']\<rparr>"]
    v fixture_run
  show ?thesis by blast
qed

text \<open>
  C10. With the empty filter the substring test holds for every name, so every entry of
  the tests root that is not a directory is scanned; when each of them can be opened,
  the report is computed from the references of all of them.
\<close>

theorem empty_filter_scans_every_file:
  assumes "fs_dirs w ed = Some exs" and "fs_dirs w td = Some tfs"
    and "\<forall>d\<in>set tfs. de_is_dir d \<or> fs_files w (filepath_Join td (de_name d)) \<noteq> None"
  shows "strings_Contains nm [] \<and>
         findMissingTests ed td [] w =
           (Inr (filter
                   (\<lambda>e. e \<notin> set (concat (map (\<lambda>d. file_refs w (filepath_Join td (de_name d)))
                                   (filter (\<lambda>d. \<not> de_is_dir d) tfs))))
                   (enumerated exs)),
            w\<lparr>tf_log := tf_log w @ banner #
                 concat (map (\<lambda>d. filepath_Join td (de_name d) #
                                  file_refs w (filepath_Join td (de_name d)))
                          (filter (\<lambda>d. \<not> de_is_dir d) tfs))\<rparr>)"
proof -
  have op: "\<forall>p\<in>set (selected_files td [] tfs). fs_files w p \<noteq> None"
    using assms(3) unfolding selected_files_empty_filter by auto
  show ?thesis
    unfolding findMissingTests_ok[OF assms(1,2) op] selected_files_empty_filter
    by (simp add: strings_Contains_empty comp_def)
qed

theorem empty_filter_scans_every_file_witness:
  "strings_Contains ''notes.txt'' [] \<and>
   findMissingTests ''examples'' ''tests'' [] notes_world =
     (Inr [],
      notes_world\<lparr>tf_log := [banner, ''tests/basic_test.cfg'', ''basic'',
                                ''tests/notes.txt'', ''advanced'']\<rparr>)"
proof -
  let ?tfs = "[plain_file ''basic_test.cfg'', subdir ''more_test.cfg'', plain_file ''notes.txt'']"
  have d: "fs_dirs notes_world ''examples'' = Some [subdir ''advanced'', subdir ''basic'']"
    "fs_dirs notes_world ''tests'' = Some ?tfs"
    by (simp_all add: notes_world_def)
  have op: "\<forall>d\<in>set ?tfs. de_is_dir d \<or>
      fs_files notes_world (filepath_Join ''tests'' (de_name d)) \<noteq> None"
    by (simp add: notes_world_def plain_file_def subdir_def)
  from empty_filter_scans_every_file[OF d op, of "''notes.txt''"] notes_run_all
  show ?thesis by blast
qed

end
